theory Spec2Isabelle
  imports Complex_Main "HOL-Library.Word"
begin

section \<open>Machine integer types of h-basic.h\<close>

text \<open>
  \<open>u32b\<close> is an unsigned 32-bit word. The signed types \<open>s32b\<close> and \<open>s16b\<close> are words of
  the same width read in two's complement with \<open>sint\<close>; arithmetic on them wraps around.
\<close>

type_synonym u32b = "32 word"
type_synonym s32b = "32 word"
type_synonym s16b = "16 word"

section \<open>The character history list (player-history.c)\<close>

subsection \<open>Data\<close>

definition HISTORY_BIRTH_SIZE :: nat where
  "HISTORY_BIRTH_SIZE = 10"

definition HISTORY_MAX :: nat where
  "HISTORY_MAX = 5000"

text \<open>
  The history type flags come from player-history.h, which is not among the sources at
  hand. The three flags this file names are constructors; every other flag is
  \<open>HIST_OTHER k\<close>. A \<open>bitflag\<close> array is the set of the flags that are on.
\<close>

datatype hist_flag =
    HIST_ARTIFACT_UNKNOWN
  | HIST_ARTIFACT_KNOWN
  | HIST_ARTIFACT_LOST
  | HIST_OTHER nat

type_synonym bitflag = "hist_flag set"

definition hist_wipe :: "bitflag" where
  "hist_wipe = {}"

definition hist_on :: "bitflag \<Rightarrow> hist_flag \<Rightarrow> bitflag" where
  "hist_on f x = insert x f"

definition hist_has :: "bitflag \<Rightarrow> hist_flag \<Rightarrow> bool" where
  "hist_has f x \<longleftrightarrow> x \<in> f"

definition hist_copy :: "bitflag \<Rightarrow> bitflag" where
  "hist_copy f = f"

text \<open>
  Of \<open>struct artifact\<close> only the index \<open>aidx\<close> is read here. Its declaration and that of
  \<open>history_info.a_idx\<close> are in headers that are not at hand; both are natural numbers in
  the model, so that storing an index keeps its value.
\<close>

record artifact =
  aidx :: nat

record history_info =
  type :: bitflag
  dlev :: s16b
  clev :: s16b
  a_idx :: nat
  turn :: s32b
  event :: string

text \<open>
  The globals of the file. \<open>history_list = None\<close> is the NULL pointer; \<open>Some xs\<close> is an
  allocated block whose entries are \<open>xs\<close>. The counters are \<open>size_t\<close>.
\<close>

record history_state =
  history_list :: "history_info list option"
  history_ctr :: nat
  history_size :: nat

text \<open>
  What the file takes from the rest of the game: the contents of memory that
  \<open>mem_realloc\<close> adds to a block (indeterminate in C, so a parameter), the size of the
  \<open>event\<close> buffer, the values \<open>player->depth\<close>, \<open>player->lev\<close> and
  \<open>player->total_energy / 100\<close> as they are passed on, and the name \<open>object_desc\<close>
  gives to the fake object made for an artifact.
\<close>

record env =
  fill :: "nat \<Rightarrow> history_info"
  event_size :: nat
  player_depth :: s16b
  player_lev :: s16b
  player_turn :: s32b
  object_desc :: "artifact \<Rightarrow> string"

subsection \<open>Memory\<close>

text \<open>An entry of the zeroed block that \<open>mem_zalloc\<close> returns.\<close>

definition zero_info :: history_info where
  "zero_info = \<lparr>type = {}, dlev = 0, clev = 0, a_idx = 0, turn = 0, event = []\<rparr>"

definition mem_zalloc :: "nat \<Rightarrow> history_info list option" where
  "mem_zalloc n = Some (replicate n zero_info)"

text \<open>
  \<open>mem_realloc\<close> keeps the old entries up to the new size; the entries it adds hold
  whatever \<open>fill\<close> says.
\<close>

definition mem_realloc :: "env \<Rightarrow> history_info list option \<Rightarrow> nat \<Rightarrow> history_info list option" where
  "mem_realloc E p n =
     (case p of
        None \<Rightarrow> Some (map (fill E) [0..<n])
      | Some xs \<Rightarrow> Some (take n xs @ map (fill E) [length xs..<n]))"

text \<open>
  Reading and writing \<open>history_list[i]\<close>. \<open>None\<close> is a fault: the pointer is NULL or the
  index is outside the block.
\<close>

definition hist_get :: "history_state \<Rightarrow> nat \<Rightarrow> history_info option" where
  "hist_get st i =
     (case history_list st of
        None \<Rightarrow> None
      | Some xs \<Rightarrow> if i < length xs then Some (xs ! i) else None)"

definition hist_put :: "nat \<Rightarrow> history_info \<Rightarrow> history_state \<Rightarrow> history_state option" where
  "hist_put i h st =
     (case history_list st of
        None \<Rightarrow> None
      | Some xs \<Rightarrow> if i < length xs then Some (st\<lparr>history_list := Some (xs[i := h])\<rparr>) else None)"

text \<open>\<open>my_strcpy\<close> copies at most \<open>bufsize - 1\<close> characters.\<close>

definition my_strcpy :: "string \<Rightarrow> nat \<Rightarrow> string" where
  "my_strcpy src bufsize = take (bufsize - 1) src"

subsection \<open>Operations\<close>

definition history_init :: "nat \<Rightarrow> history_state \<Rightarrow> history_state" where
  "history_init entries st =
     st\<lparr>history_ctr := 0, history_size := entries, history_list := mem_zalloc entries\<rparr>"

definition history_clear :: "history_state \<Rightarrow> history_state" where
  "history_clear st =
     (if history_list st = None then st
      else st\<lparr>history_list := None, history_ctr := 0, history_size := 0\<rparr>)"

definition history_set_num :: "env \<Rightarrow> nat \<Rightarrow> history_state \<Rightarrow> bool \<times> history_state" where
  "history_set_num E num st =
     (let num = (if num > HISTORY_MAX then HISTORY_MAX else num)
      in if num \<le> history_size st then (False, st)
         else (True, st\<lparr>history_list := mem_realloc E (history_list st) num,
                         history_size := num\<rparr>))"

definition history_get_num :: "history_state \<Rightarrow> nat" where
  "history_get_num st = history_ctr st"

text \<open>
  The functions below take the artifact itself where the source asserts that the pointer
  is not NULL. Each \<open>while (i--)\<close> loop is a recursion on the value of \<open>i\<close> before the
  test. A result \<open>None\<close> is a fault of a memory access.
\<close>

fun history_know_loop :: "artifact \<Rightarrow> nat \<Rightarrow> history_state \<Rightarrow> (bool \<times> history_state) option" where
  "history_know_loop art 0 st = Some (False, st)"
| "history_know_loop art (Suc i) st =
     (case hist_get st i of
        None \<Rightarrow> None
      | Some h \<Rightarrow>
          if a_idx h = aidx art
          then map_option (Pair True)
                 (hist_put i (h\<lparr>type := hist_on hist_wipe HIST_ARTIFACT_KNOWN\<rparr>) st)
          else history_know_loop art i st)"

definition history_know_artifact :: "artifact \<Rightarrow> history_state \<Rightarrow> (bool \<times> history_state) option" where
  "history_know_artifact art st = history_know_loop art (history_ctr st) st"

text \<open>Lines 163 to 173 of \<open>history_add_full\<close>: the entry is written and counted.\<close>

definition history_entry ::
  "env \<Rightarrow> bitflag \<Rightarrow> artifact option \<Rightarrow> s16b \<Rightarrow> s16b \<Rightarrow> s32b \<Rightarrow> string \<Rightarrow> history_info" where
  "history_entry E ty art dl cl turnno text =
     \<lparr>type = hist_copy ty, dlev = dl, clev = cl,
      a_idx = (case art of Some a \<Rightarrow> aidx a | None \<Rightarrow> 0),
      turn = turnno, event = my_strcpy text (event_size E)\<rparr>"

definition history_store :: "history_info \<Rightarrow> history_state \<Rightarrow> (bool \<times> history_state) option" where
  "history_store h st =
     (case hist_put (history_ctr st) h st of
        None \<Rightarrow> None
      | Some st' \<Rightarrow> Some (True, st'\<lparr>history_ctr := history_ctr st' + 1\<rparr>))"

definition history_add_full ::
  "env \<Rightarrow> bitflag \<Rightarrow> artifact option \<Rightarrow> s16b \<Rightarrow> s16b \<Rightarrow> s32b \<Rightarrow> string \<Rightarrow>
   history_state \<Rightarrow> (bool \<times> history_state) option" where
  "history_add_full E ty art dl cl turnno text st =
     (if history_list st = None
      then history_store (history_entry E ty art dl cl turnno text)
             (history_init HISTORY_BIRTH_SIZE st)
      else if history_ctr st = history_size st
      then (case history_set_num E (history_size st + 10) st of
              (False, st1) \<Rightarrow> Some (False, st1)
            | (True, st1) \<Rightarrow> history_store (history_entry E ty art dl cl turnno text) st1)
      else history_store (history_entry E ty art dl cl turnno text) st)"

definition history_add ::
  "env \<Rightarrow> string \<Rightarrow> hist_flag \<Rightarrow> artifact option \<Rightarrow> history_state \<Rightarrow>
   (bool \<times> history_state) option" where
  "history_add E ev ty art st =
     history_add_full E (hist_on hist_wipe ty) art
       (player_depth E) (player_lev E) (player_turn E) ev st"

fun history_logged_loop :: "artifact \<Rightarrow> nat \<Rightarrow> history_state \<Rightarrow> bool option" where
  "history_logged_loop art 0 st = Some False"
| "history_logged_loop art (Suc i) st =
     (case hist_get st i of
        None \<Rightarrow> None
      | Some h \<Rightarrow>
          if hist_has (type h) HIST_ARTIFACT_LOST then history_logged_loop art i st
          else if a_idx h = aidx art then Some True
          else history_logged_loop art i st)"

definition history_is_artifact_logged :: "artifact \<Rightarrow> history_state \<Rightarrow> bool option" where
  "history_is_artifact_logged art st = history_logged_loop art (history_ctr st) st"

text \<open>
  \<open>o_name\<close> and \<open>buf\<close> are arrays of 80 characters, so each holds at most 79. The
  results of \<open>history_know_artifact\<close>, \<open>history_add\<close> and \<open>history_add_full\<close> are
  dropped, as in the source.
\<close>

definition history_add_artifact ::
  "env \<Rightarrow> artifact \<Rightarrow> bool \<Rightarrow> bool \<Rightarrow> history_state \<Rightarrow> (bool \<times> history_state) option" where
  "history_add_artifact E art known found st =
     (let o_name = take 79 (object_desc E art);
          buf = take 79 ((if found then ''Found '' else ''Missed '') @ o_name)
      in if known
         then (case history_is_artifact_logged art st of
                 None \<Rightarrow> None
               | Some True \<Rightarrow>
                   map_option (\<lambda>r. (True, snd r)) (history_know_artifact art st)
               | Some False \<Rightarrow>
                   map_option (\<lambda>r. (True, snd r))
                     (history_add E buf HIST_ARTIFACT_KNOWN (Some art) st))
         else (case history_is_artifact_logged art st of
                 None \<Rightarrow> None
               | Some False \<Rightarrow>
                   (let ty = hist_on hist_wipe HIST_ARTIFACT_UNKNOWN;
                        ty = (if \<not> found then hist_on ty HIST_ARTIFACT_LOST else ty)
                    in map_option (\<lambda>r. (True, snd r))
                         (history_add_full E ty (Some art)
                            (player_depth E) (player_lev E) (player_turn E) buf st))
               | Some True \<Rightarrow> Some (False, st)))"

text \<open>
  The loop of \<open>history_lose_artifact\<close>: \<open>Some (Some st')\<close> when an entry was marked and
  the function returns TRUE, \<open>Some None\<close> when the loop ends without a match.
\<close>

fun history_lose_loop :: "artifact \<Rightarrow> nat \<Rightarrow> history_state \<Rightarrow> history_state option option" where
  "history_lose_loop art 0 st = Some None"
| "history_lose_loop art (Suc i) st =
     (case hist_get st i of
        None \<Rightarrow> None
      | Some h \<Rightarrow>
          if a_idx h = aidx art
          then map_option Some
                 (hist_put i (h\<lparr>type := hist_on (type h) HIST_ARTIFACT_LOST\<rparr>) st)
          else history_lose_loop art i st)"

definition history_lose_artifact ::
  "env \<Rightarrow> artifact \<Rightarrow> history_state \<Rightarrow> (bool \<times> history_state) option" where
  "history_lose_artifact E art st =
     (case history_lose_loop art (history_ctr st) st of
        None \<Rightarrow> None
      | Some (Some st') \<Rightarrow> Some (True, st')
      | Some None \<Rightarrow>
          map_option (\<lambda>r. (False, snd r)) (history_add_artifact E art False False st))"

subsection \<open>The states the file can reach\<close>

text \<open>
  Before the first entry the list is NULL and both counters are 0. Afterwards the block
  has \<open>history_size\<close> entries, of which the first \<open>history_ctr\<close> are written, and the size
  never passes \<open>HISTORY_MAX\<close>.
\<close>

definition history_wf :: "history_state \<Rightarrow> bool" where
  "history_wf st \<longleftrightarrow>
     (case history_list st of
        None \<Rightarrow> history_ctr st = 0 \<and> history_size st = 0
      | Some xs \<Rightarrow> length xs = history_size st \<and> history_ctr st \<le> history_size st
                   \<and> history_size st \<le> HISTORY_MAX)"

definition history_start :: history_state where
  "history_start = \<lparr>history_list = None, history_ctr = 0, history_size = 0\<rparr>"

subsection \<open>Concrete states\<close>

text \<open>
  An environment, an artifact with index 1, and the state after 5000 entries that carry
  no artifact: the block is full and cannot grow.
\<close>

definition history_env0 :: env where
  "history_env0 =
     \<lparr>fill = (\<lambda>_. zero_info), event_size = 80, player_depth = 3, player_lev = 7,
      player_turn = 120, object_desc = (\<lambda>_. ''the Phial of Galadriel'')\<rparr>"

definition artifact1 :: artifact where
  "artifact1 = \<lparr>aidx = 1\<rparr>"

definition history_full :: history_state where
  "history_full =
     \<lparr>history_list = Some (replicate 5000 zero_info), history_ctr = 5000,
      history_size = 5000\<rparr>"

text \<open>
  \<open>history_blank n\<close>: the state after \<open>n\<close> calls of \<open>history_add_full\<close> with no flags, no
  artifact, zeros and the empty text.
\<close>

fun history_blank :: "nat \<Rightarrow> env \<Rightarrow> history_state \<Rightarrow> history_state option" where
  "history_blank 0 E st = Some st"
| "history_blank (Suc n) E st =
     (case history_blank n E st of
        None \<Rightarrow> None
      | Some st1 \<Rightarrow> map_option snd (history_add_full E {} None 0 0 0 [] st1))"

definition history_one :: history_state where
  "history_one =
     \<lparr>history_list = Some ((zero_info\<lparr>a_idx := 1\<rparr>) # replicate 9 zero_info),
      history_ctr = 1, history_size = 10\<rparr>"

section \<open>Random numbers (z-rand.h)\<close>

subsection \<open>Declarations of the header\<close>

definition MAX_RAND_DEPTH :: int where
  "MAX_RAND_DEPTH = 128"

definition RAND_DEG :: nat where
  "RAND_DEG = 32"

text \<open>
  \<open>random_value\<close>: the result is base + XdY + BONUS. The fields are C ints; the calculus
  that reads them is modelled from the spec, whose integers are unbounded, so they are
  integers here.
\<close>

record random_value =
  base :: int
  dice :: int
  sides :: int
  m_bonus :: int

datatype aspect = MINIMISE | AVERAGE | MAXIMISE | EXTREMIFY | RANDOMISE

text \<open>The globals of the header: the mode flag, the quick state and the complex state.\<close>

record rng_state =
  Rand_quick :: bool
  Rand_value :: u32b
  state_i :: u32b
  STATE :: "u32b list"
  z0 :: u32b
  z1 :: u32b
  z2 :: u32b

subsection \<open>The macros\<close>

text \<open>
  \<open>Rand_div\<close> is declared in the header and defined elsewhere, so the macros take it as a
  parameter \<open>rd\<close>: given \<open>m\<close> and the generator state it returns the number drawn and the
  new state. The header says of it that \<open>0 <= X < M\<close> holds, which is \<open>Rand_div_ok\<close>.
  The macro arguments are signed 32-bit values. Passing one to \<open>Rand_div\<close> and casting
  the result to \<open>s32b\<close> keep the 32 bits, and the sums wrap around.
\<close>

definition Rand_div_ok :: "(u32b \<Rightarrow> 'g \<Rightarrow> u32b \<times> 'g) \<Rightarrow> bool" where
  "Rand_div_ok rd \<longleftrightarrow> (\<forall>m g. 0 < m \<longrightarrow> fst (rd m g) < m)"

definition randint0 :: "(u32b \<Rightarrow> 'g \<Rightarrow> u32b \<times> 'g) \<Rightarrow> s32b \<Rightarrow> 'g \<Rightarrow> s32b \<times> 'g" where
  "randint0 rd M g = (case rd M g of (r, g') \<Rightarrow> (r, g'))"

definition randint1 :: "(u32b \<Rightarrow> 'g \<Rightarrow> u32b \<times> 'g) \<Rightarrow> s32b \<Rightarrow> 'g \<Rightarrow> s32b \<times> 'g" where
  "randint1 rd M g = (case rd M g of (r, g') \<Rightarrow> (r + 1, g'))"

definition rand_spread :: "(u32b \<Rightarrow> 'g \<Rightarrow> u32b \<times> 'g) \<Rightarrow> s32b \<Rightarrow> s32b \<Rightarrow> 'g \<Rightarrow> s32b \<times> 'g" where
  "rand_spread rd A D g = (case randint0 rd (1 + D + D) g of (r, g') \<Rightarrow> (A + r - D, g'))"

definition one_in :: "(u32b \<Rightarrow> 'g \<Rightarrow> u32b \<times> 'g) \<Rightarrow> s32b \<Rightarrow> 'g \<Rightarrow> bool \<times> 'g" where
  "one_in rd x g = (case randint0 rd x g of (r, g') \<Rightarrow> (r = 0, g'))"

text \<open>
  Modelled from the spec: the body of \<open>rand_range\<close> is missing (the header declares
  \<open>int rand_range(int A, int B)\<close>). The spec has
  \<open>rand_range(A, B) = A + draw_below(B - A + 1)\<close>.
\<close>

definition rand_range :: "(u32b \<Rightarrow> 'g \<Rightarrow> u32b \<times> 'g) \<Rightarrow> s32b \<Rightarrow> s32b \<Rightarrow> 'g \<Rightarrow> s32b \<times> 'g" where
  "rand_range rd A B g = (case rd (B - A + 1) g of (r, g') \<Rightarrow> (A + r, g'))"

text \<open>
  A sampler that meets \<open>Rand_div_ok\<close>, for concrete runs: the state is a counter, the
  number drawn is the counter modulo \<open>m\<close>.
\<close>

definition rd_counter :: "u32b \<Rightarrow> u32b \<Rightarrow> u32b \<times> u32b" where
  "rd_counter m g = (g mod m, g + 1)"

subsection \<open>The two generators\<close>

text \<open>
  Modelled from the spec: the two generator algorithms are missing. The Quick Generator
  advances its one word, the Complex Generator its 32 words, cursor and three tempering
  words. The spec leaves both recurrences open, so each is a parameter that is given the
  state of its own generator and returns the number drawn below \<open>m\<close> with the new state.
\<close>

type_synonym complex_words = "u32b \<times> u32b list \<times> u32b \<times> u32b \<times> u32b"

record generators =
  quick_below :: "u32b \<Rightarrow> u32b \<Rightarrow> u32b \<times> u32b"
  complex_below :: "u32b \<Rightarrow> complex_words \<Rightarrow> u32b \<times> complex_words"

definition complex_of :: "rng_state \<Rightarrow> complex_words" where
  "complex_of g = (state_i g, STATE g, z0 g, z1 g, z2 g)"

fun set_complex :: "complex_words \<Rightarrow> rng_state \<Rightarrow> rng_state" where
  "set_complex (i, S, a, b, c) g = g\<lparr>state_i := i, STATE := S, z0 := a, z1 := b, z2 := c\<rparr>"

text \<open>
  Modelled from the spec: the body of \<open>Rand_div\<close> (the spec's uniform sampler) is
  missing. Every draw goes through it, and it goes through whichever generator the mode
  flag selects.
\<close>

definition Rand_div :: "generators \<Rightarrow> u32b \<Rightarrow> rng_state \<Rightarrow> u32b \<times> rng_state" where
  "Rand_div G m g =
     (if Rand_quick g
      then (case quick_below G m (Rand_value g) of (r, v) \<Rightarrow> (r, g\<lparr>Rand_value := v\<rparr>))
      else (case complex_below G m (complex_of g) of (r, c) \<Rightarrow> (r, set_complex c g)))"

text \<open>
  Modelled from the spec: \<open>set_quick_mode\<close> toggles which generator serves the draws that
  follow. The header has the flag as the global \<open>Rand_quick\<close>, which the host assigns.
\<close>

definition set_quick_mode :: "bool \<Rightarrow> rng_state \<Rightarrow> rng_state" where
  "set_quick_mode b g = g\<lparr>Rand_quick := b\<rparr>"

text \<open>A run of the host: it sets the mode flag and draws, in any order.\<close>

datatype rng_op = Set_quick bool | Draw u32b

fun run_ops :: "generators \<Rightarrow> rng_op list \<Rightarrow> rng_state \<Rightarrow> u32b list \<times> rng_state" where
  "run_ops G [] g = ([], g)"
| "run_ops G (Set_quick b # ops) g = run_ops G ops (set_quick_mode b g)"
| "run_ops G (Draw m # ops) g =
     (case Rand_div G m g of (r, g1) \<Rightarrow>
        (case run_ops G ops g1 of (rs, g2) \<Rightarrow> (r # rs, g2)))"

text \<open>
  \<open>draws_in q0 q ops\<close>: started with the flag at \<open>q\<close>, every draw of \<open>ops\<close> happens while
  the flag is \<open>q0\<close>.
\<close>

fun draws_in :: "bool \<Rightarrow> bool \<Rightarrow> rng_op list \<Rightarrow> bool" where
  "draws_in q0 q [] = True"
| "draws_in q0 q (Set_quick b # ops) = draws_in q0 b ops"
| "draws_in q0 q (Draw m # ops) = (q = q0 \<and> draws_in q0 q ops)"

subsection \<open>Dice calculus\<close>

text \<open>
  The header declares \<open>damroll\<close>, \<open>damcalc\<close>, \<open>m_bonus\<close>, \<open>m_bonus_calc\<close> and
  \<open>randcalc\<close>; their bodies are missing and are modelled from the spec, whose integers
  are unbounded. \<open>randcalc_valid(random_value v, int test)\<close> is declared without a level,
  and neither the sources nor the spec say at which level its missing body evaluates, so it
  is not modelled. What the calculus takes from outside is a parameter:
  \<open>draw_below\<close> (the uniform sampler, as a function of the generator state), and the
  level-scaled bonus, whose curve the spec leaves to be supplied: \<open>bonus_evaluate\<close> for
  the four analytic aspects and \<open>bonus\<close> (the header's \<open>m_bonus\<close>) for the sampled one.
\<close>

record 'g sampling =
  draw_below :: "int \<Rightarrow> 'g \<Rightarrow> int \<times> 'g"
  bonus_evaluate :: "int \<Rightarrow> int \<Rightarrow> aspect \<Rightarrow> int"
  bonus :: "int \<Rightarrow> int \<Rightarrow> 'g \<Rightarrow> int \<times> 'g"

text \<open>The spec's precondition and result of \<open>draw_below\<close>: for \<open>m \<ge> 1\<close>, a value in \<open>[0, m)\<close>.\<close>

definition draw_below_ok :: "'g sampling \<Rightarrow> bool" where
  "draw_below_ok X \<longleftrightarrow>
     (\<forall>m g. 1 \<le> m \<longrightarrow> 0 \<le> fst (draw_below X m g) \<and> fst (draw_below X m g) < m)"

text \<open>
  Modelled from the spec: the body of \<open>damroll\<close> is missing. The spec's \<open>roll(n, s)\<close>
  samples \<open>n\<close> draws over \<open>[1, s]\<close>, each \<open>draw_below(s) + 1\<close>, and returns their sum; it
  returns 0 when \<open>n = 0\<close>.
\<close>

fun damroll_loop :: "'g sampling \<Rightarrow> nat \<Rightarrow> int \<Rightarrow> 'g \<Rightarrow> int \<times> 'g" where
  "damroll_loop X 0 s g = (0, g)"
| "damroll_loop X (Suc k) s g =
     (case draw_below X s g of (r, g1) \<Rightarrow>
        (case damroll_loop X k s g1 of (t, g2) \<Rightarrow> (r + 1 + t, g2)))"

definition damroll :: "'g sampling \<Rightarrow> int \<Rightarrow> int \<Rightarrow> 'g \<Rightarrow> int \<times> 'g" where
  "damroll X num s g = damroll_loop X (nat num) s g"

text \<open>
  Modelled from the spec: the Average of the missing \<open>damcalc\<close> is
  \<open>round(n * (s + 1) / 2)\<close>, rounding half-up; in integer arithmetic, the floor of the
  quotient plus one half.
\<close>

definition dice_average :: "int \<Rightarrow> int \<Rightarrow> int" where
  "dice_average n s = (n * (s + 1) + 1) div 2"

text \<open>
  Modelled from the spec: the body of \<open>damcalc\<close> is missing. The spec's
  \<open>evaluate(n, s, aspect)\<close> has Minimise \<open>n\<close>, Maximise \<open>n * s\<close>, the Average above,
  Extremify: if \<open>n*s - average \<ge> average - n\<close>, Maximise's value, else Minimise's value,
  and Randomise \<open>roll(n, s)\<close>.
\<close>

fun damcalc :: "'g sampling \<Rightarrow> int \<Rightarrow> int \<Rightarrow> aspect \<Rightarrow> 'g \<Rightarrow> int \<times> 'g" where
  "damcalc X n s MINIMISE g = (n, g)"
| "damcalc X n s MAXIMISE g = (n * s, g)"
| "damcalc X n s AVERAGE g = (dice_average n s, g)"
| "damcalc X n s EXTREMIFY g =
     (if n * s - dice_average n s \<ge> dice_average n s - n then n * s else n, g)"
| "damcalc X n s RANDOMISE g = damroll X n s g"

text \<open>
  Modelled from the spec: the body of \<open>m_bonus_calc\<close> is missing. The spec's
  \<open>bonus_evaluate(max, level, aspect)\<close> is the supplied curve for the four analytic
  aspects and samples for Randomise.
\<close>

fun m_bonus_calc :: "'g sampling \<Rightarrow> int \<Rightarrow> int \<Rightarrow> aspect \<Rightarrow> 'g \<Rightarrow> int \<times> 'g" where
  "m_bonus_calc X mx level RANDOMISE g = bonus X mx level g"
| "m_bonus_calc X mx level a g = (bonus_evaluate X mx level a, g)"

text \<open>
  Modelled from the spec: the body of \<open>randcalc\<close> is missing. The spec's
  \<open>DiceSpec::evaluate(level, aspect)\<close> is
  \<open>base + evaluate(dice, sides, aspect) + BonusCalculus::evaluate(bonus, level, aspect)\<close>.
\<close>

definition randcalc :: "'g sampling \<Rightarrow> random_value \<Rightarrow> int \<Rightarrow> aspect \<Rightarrow> 'g \<Rightarrow> int \<times> 'g" where
  "randcalc X v level a g =
     (case damcalc X (dice v) (sides v) a g of (dmg, g1) \<Rightarrow>
        (case m_bonus_calc X (m_bonus v) level a g1 of (bon, g2) \<Rightarrow>
           (base v + dmg + bon, g2)))"

text \<open>
  A sampling for concrete runs: the generator state is a counter, a draw below \<open>m\<close> is the
  counter modulo \<open>m\<close>, and the bonus is 0 at Minimise and \<open>max\<close> otherwise.
\<close>

definition sampling0 :: "int sampling" where
  "sampling0 =
     \<lparr>draw_below = (\<lambda>m g. (g mod m, g + 1)),
      bonus_evaluate = (\<lambda>mx level a. (case a of MINIMISE \<Rightarrow> 0 | _ \<Rightarrow> mx)),
      bonus = (\<lambda>mx level g. (mx, g))\<rparr>"

text \<open>Generators and a generator state for concrete runs.\<close>

definition generators0 :: generators where
  "generators0 =
     \<lparr>quick_below = (\<lambda>m v. (v mod m, v * 1103515245 + 12345)),
      complex_below = (\<lambda>m (i, S, a, b, c). (a mod m, (i + 1, S, a + 1, b, c)))\<rparr>"

definition rng0 :: rng_state where
  "rng0 = \<lparr>Rand_quick = False, Rand_value = 7, state_i = 0, STATE = replicate 32 0,
           z0 = 1, z1 = 2, z2 = 3\<rparr>"

section \<open>Properties of the history list\<close>

subsection \<open>Adding an entry\<close>

lemma history_store_ok:
  assumes "history_list st = Some xs" and "history_ctr st < length xs"
  shows "history_store h st =
           Some (True, st\<lparr>history_list := Some (xs[history_ctr st := h]),
                          history_ctr := history_ctr st + 1\<rparr>)"
  using assms by (simp add: history_store_def hist_put_def)

lemma history_add_full_room:
  assumes "history_list st = Some xs" and "history_ctr st < history_size st"
    and "length xs = history_size st"
  shows "history_add_full E ty art dl cl turnno text st =
           Some (True, st\<lparr>history_list :=
                             Some (xs[history_ctr st := history_entry E ty art dl cl turnno text]),
                          history_ctr := history_ctr st + 1\<rparr>)"
  using assms by (simp add: history_add_full_def history_store_ok)

lemma history_add_full_null:
  assumes "history_list st = None"
  shows "history_add_full E ty art dl cl turnno text st =
           Some (True, st\<lparr>history_size := HISTORY_BIRTH_SIZE,
                          history_list :=
                             Some ((replicate HISTORY_BIRTH_SIZE zero_info)
                                     [0 := history_entry E ty art dl cl turnno text]),
                          history_ctr := 1\<rparr>)"
  using assms
  by (simp add: history_add_full_def history_store_def hist_put_def history_init_def
      mem_zalloc_def HISTORY_BIRTH_SIZE_def)

lemma history_add_full_grow:
  assumes "history_list st = Some xs" and "history_ctr st = history_size st"
    and "length xs = history_size st" and "history_size st < HISTORY_MAX"
  shows "history_add_full E ty art dl cl turnno text st =
           Some (True, st\<lparr>history_list :=
                             Some ((xs @ map (fill E) [history_size st ..< min (history_size st + 10) HISTORY_MAX])
                                     [history_ctr st := history_entry E ty art dl cl turnno text]),
                          history_size := min (history_size st + 10) HISTORY_MAX,
                          history_ctr := history_ctr st + 1\<rparr>)"
  using assms
  by (auto simp add: history_add_full_def history_set_num_def mem_realloc_def Let_def
      history_store_def hist_put_def min_def)

lemma history_add_full_capped:
  assumes "history_list st = Some xs" and "history_ctr st = history_size st"
    and "HISTORY_MAX \<le> history_size st"
  shows "history_add_full E ty art dl cl turnno text st = Some (False, st)"
  using assms
  by (simp add: history_add_full_def history_set_num_def Let_def)

lemma history_add_full_appends:
  assumes "history_wf st" and "history_ctr st < HISTORY_MAX"
  shows "\<exists>st'. history_add_full E ty art dl cl turnno text st = Some (True, st')
           \<and> history_ctr st' = history_ctr st + 1
           \<and> hist_get st' (history_ctr st) = Some (history_entry E ty art dl cl turnno text)
           \<and> (\<forall>i < history_ctr st. hist_get st' i = hist_get st i)
           \<and> history_wf st'"
proof (cases "history_list st")
  case None
  with assms have z: "history_ctr st = 0" "history_size st = 0"
    by (simp_all add: history_wf_def)
  show ?thesis
    using z None
    by (simp add: history_add_full_null hist_get_def history_wf_def HISTORY_MAX_def
        HISTORY_BIRTH_SIZE_def)
next
  case (Some xs)
  with assms have wf: "length xs = history_size st" "history_ctr st \<le> history_size st"
    "history_size st \<le> HISTORY_MAX"
    by (simp_all add: history_wf_def)
  consider (grow) "history_ctr st = history_size st" "history_size st < HISTORY_MAX"
    | (room) "history_ctr st < history_size st"
    using wf assms(2) by linarith
  then show ?thesis
  proof cases
    case grow
    then show ?thesis
      using Some wf
      by (simp add: history_add_full_grow hist_get_def history_wf_def nth_append)
  next
    case room
    then show ?thesis
      using Some wf
      by (auto simp add: history_add_full_room hist_get_def history_wf_def)
  qed
qed

text \<open>
  Claim C9. In a state the file can reach: when the list already holds \<open>HISTORY_MAX\<close>
  entries (\<open>history_ctr = history_size = 5000\<close>), \<open>history_add_full\<close> returns FALSE and the
  state is the one before the call. In every other case it returns TRUE, the new entry is
  at the index the counter had, the counter is one more, every entry below it is as
  before, and the state can be reached again.
\<close>

theorem history_add_full_spec:
  assumes "history_wf st"
  shows "if history_ctr st = HISTORY_MAX \<and> history_size st = HISTORY_MAX
         then history_add_full E ty art dl cl turnno text st = Some (False, st)
         else (\<exists>st'. history_add_full E ty art dl cl turnno text st = Some (True, st')
                 \<and> history_ctr st' = history_ctr st + 1
                 \<and> hist_get st' (history_ctr st) = Some (history_entry E ty art dl cl turnno text)
                 \<and> (\<forall>i < history_ctr st. hist_get st' i = hist_get st i)
                 \<and> history_wf st')"
proof (cases "history_ctr st = HISTORY_MAX \<and> history_size st = HISTORY_MAX")
  case True
  with assms obtain xs where xs: "history_list st = Some xs"
    by (cases "history_list st") (simp_all add: history_wf_def HISTORY_MAX_def)
  from True have "history_ctr st = history_size st" "HISTORY_MAX \<le> history_size st"
    by simp_all
  then have "history_add_full E ty art dl cl turnno text st = Some (False, st)"
    by (rule history_add_full_capped [OF xs])
  then show ?thesis unfolding if_P [OF True] .
next
  case False
  have "history_ctr st \<le> history_size st \<and> history_size st \<le> HISTORY_MAX"
    using assms by (cases "history_list st") (simp_all add: history_wf_def)
  with False have "history_ctr st < HISTORY_MAX" by linarith
  then show ?thesis
    unfolding if_not_P [OF False] by (rule history_add_full_appends [OF assms])
qed

theorem history_add_full_spec_witness:
  "history_wf history_full
   \<and> history_add_full history_env0 {} None 0 0 0 ''x'' history_full = Some (False, history_full)
   \<and> history_wf history_start
   \<and> (\<exists>st'. history_add_full history_env0 {} None 0 0 0 ''x'' history_start = Some (True, st')
         \<and> history_ctr st' = 1
         \<and> hist_get st' 0 = Some (history_entry history_env0 {} None 0 0 0 ''x''))"
proof -
  have f: "history_wf history_full"
    by (simp add: history_wf_def history_full_def HISTORY_MAX_def)
  have s: "history_wf history_start"
    by (simp add: history_wf_def history_start_def)
  have c: "history_ctr history_full = HISTORY_MAX \<and> history_size history_full = HISTORY_MAX"
    by (simp add: history_full_def HISTORY_MAX_def)
  have d: "\<not> (history_ctr history_start = HISTORY_MAX \<and> history_size history_start = HISTORY_MAX)"
    by (simp add: history_start_def HISTORY_MAX_def)
  have z: "history_ctr history_start = 0"
    by (simp add: history_start_def)
  from history_add_full_spec [OF f, of history_env0 "{}" None 0 0 0 "''x''"] c
  have 1: "history_add_full history_env0 {} None 0 0 0 ''x'' history_full = Some (False, history_full)"
    by simp
  from history_add_full_spec [OF s, of history_env0 "{}" None 0 0 0 "''x''"] d z
  have 2: "\<exists>st'. history_add_full history_env0 {} None 0 0 0 ''x'' history_start = Some (True, st')
         \<and> history_ctr st' = 1
         \<and> hist_get st' 0 = Some (history_entry history_env0 {} None 0 0 0 ''x'')"
    by auto
  from f s 1 2 show ?thesis by blast
qed

subsection \<open>Losing an artifact\<close>

lemma last_match:
  fixes P :: "nat \<Rightarrow> bool"
  assumes "\<exists>i<n. P i"
  shows "\<exists>k<n. P k \<and> (\<forall>i. k < i \<and> i < n \<longrightarrow> \<not> P i)"
  using assms
proof (induction n)
  case 0
  then show ?case by simp
next
  case (Suc n)
  show ?case
  proof (cases "P n")
    case True
    then have "n < Suc n \<and> P n \<and> (\<forall>i. n < i \<and> i < Suc n \<longrightarrow> \<not> P i)" by auto
    then show ?thesis by blast
  next
    case False
    with Suc.prems have "\<exists>i<n. P i" by (metis less_Suc_eq)
    with Suc.IH obtain k where k: "k < n" "P k" "\<forall>i. k < i \<and> i < n \<longrightarrow> \<not> P i" by blast
    have "\<forall>i. k < i \<and> i < Suc n \<longrightarrow> \<not> P i"
      using k(3) False by (metis less_Suc_eq)
    with k(1,2) show ?thesis by (metis less_Suc_eq)
  qed
qed

lemma history_lose_loop_none:
  assumes "history_list st = Some xs" and "n \<le> length xs"
    and "\<forall>i<n. a_idx (xs ! i) \<noteq> aidx art"
  shows "history_lose_loop art n st = Some None"
  using assms(2,3)
proof (induction n)
  case 0
  then show ?case by simp
next
  case (Suc n)
  then show ?case using assms(1) by (simp add: hist_get_def)
qed

lemma history_lose_loop_hit:
  assumes "history_list st = Some xs" and "n \<le> length xs" and "k < n"
    and "a_idx (xs ! k) = aidx art"
    and "\<forall>i. k < i \<and> i < n \<longrightarrow> a_idx (xs ! i) \<noteq> aidx art"
  shows "history_lose_loop art n st =
           Some (Some (st\<lparr>history_list :=
             Some (xs[k := (xs ! k)\<lparr>type := hist_on (type (xs ! k)) HIST_ARTIFACT_LOST\<rparr>])\<rparr>))"
  using assms(2,3,5)
proof (induction n)
  case 0
  then show ?case by simp
next
  case (Suc n)
  have get: "hist_get st n = Some (xs ! n)"
    using assms(1) Suc.prems(1) by (simp add: hist_get_def)
  show ?case
  proof (cases "k = n")
    case True
    then show ?thesis
      using get assms(1,4) Suc.prems(1) by (simp add: hist_put_def)
  next
    case False
    with Suc.prems have kn: "k < n" by simp
    with Suc.prems have ne: "a_idx (xs ! n) \<noteq> aidx art" by simp
    have "\<forall>i. k < i \<and> i < n \<longrightarrow> a_idx (xs ! i) \<noteq> aidx art"
      using Suc.prems(3) by simp
    with Suc.IH kn Suc.prems(1) have "history_lose_loop art n st =
           Some (Some (st\<lparr>history_list :=
             Some (xs[k := (xs ! k)\<lparr>type := hist_on (type (xs ! k)) HIST_ARTIFACT_LOST\<rparr>])\<rparr>))"
      by simp
    then show ?thesis using get ne by simp
  qed
qed

lemma history_logged_loop_none:
  assumes "history_list st = Some xs" and "n \<le> length xs"
    and "\<forall>i<n. a_idx (xs ! i) \<noteq> aidx art"
  shows "history_logged_loop art n st = Some False"
  using assms(2,3)
proof (induction n)
  case 0
  then show ?case by simp
next
  case (Suc n)
  then show ?case using assms(1) by (simp add: hist_get_def)
qed


lemma history_add_artifact_missed:
  assumes "history_is_artifact_logged art st = Some False"
  shows "history_add_artifact E art False False st =
           map_option (\<lambda>r. (True, snd r))
             (history_add_full E {HIST_ARTIFACT_LOST, HIST_ARTIFACT_UNKNOWN} (Some art)
                (player_depth E) (player_lev E) (player_turn E)
                (take 79 (''Missed '' @ take 79 (object_desc E art))) st)"
  using assms by (simp add: history_add_artifact_def Let_def hist_on_def hist_wipe_def)

lemma history_lose_artifact_found:
  assumes "history_list st = Some xs" and "history_ctr st \<le> length xs"
    and "k < history_ctr st" and "a_idx (xs ! k) = aidx art"
    and "\<forall>i. k < i \<and> i < history_ctr st \<longrightarrow> a_idx (xs ! i) \<noteq> aidx art"
  shows "history_lose_artifact E art st =
           Some (True, st\<lparr>history_list :=
             Some (xs[k := (xs ! k)\<lparr>type := hist_on (type (xs ! k)) HIST_ARTIFACT_LOST\<rparr>])\<rparr>)"
  using history_lose_loop_hit [OF assms] by (simp add: history_lose_artifact_def)

lemma history_lose_artifact_missed:
  assumes "history_list st = Some xs" and "history_ctr st \<le> length xs"
    and "\<forall>i<history_ctr st. a_idx (xs ! i) \<noteq> aidx art"
  shows "history_lose_artifact E art st =
           map_option (\<lambda>r. (False, snd r))
             (history_add_full E {HIST_ARTIFACT_LOST, HIST_ARTIFACT_UNKNOWN} (Some art)
                (player_depth E) (player_lev E) (player_turn E)
                (take 79 (''Missed '' @ take 79 (object_desc E art))) st)"
proof -
  have "history_is_artifact_logged art st = Some False"
    using history_logged_loop_none [OF assms] by (simp add: history_is_artifact_logged_def)
  then show ?thesis
    using history_lose_loop_none [OF assms]
    by (simp add: history_lose_artifact_def history_add_artifact_missed option.map_comp comp_def)
qed

lemma history_lose_artifact_null:
  assumes "history_list st = None" and "history_ctr st = 0"
  shows "history_lose_artifact E art st =
           map_option (\<lambda>r. (False, snd r))
             (history_add_full E {HIST_ARTIFACT_LOST, HIST_ARTIFACT_UNKNOWN} (Some art)
                (player_depth E) (player_lev E) (player_turn E)
                (take 79 (''Missed '' @ take 79 (object_desc E art))) st)"
proof -
  have "history_is_artifact_logged art st = Some False"
    using assms by (simp add: history_is_artifact_logged_def)
  then show ?thesis
    using assms
    by (simp add: history_lose_artifact_def history_add_artifact_missed option.map_comp comp_def)
qed

text \<open>
  Claim C10, as amended. In a state the file can reach, \<open>history_lose_artifact\<close> returns
  TRUE exactly when some entry below the counter has the artifact's index; the state then
  differs only in that the last such entry has \<open>HIST_ARTIFACT_LOST\<close> switched on. When it
  returns FALSE and the list holds fewer than \<open>HISTORY_MAX\<close> entries, a new entry with the
  text "Missed ..." and the artifact's index is at the index the counter had, the counter
  is one more and the entries below it are as before. When it returns FALSE and the list
  holds \<open>HISTORY_MAX\<close> entries, the state is the one before the call.
\<close>

theorem history_lose_artifact_spec:
  assumes "history_wf st"
  shows "\<exists>b st'. history_lose_artifact E art st = Some (b, st')
     \<and> (b \<longleftrightarrow> (\<exists>i<history_ctr st. \<exists>h. hist_get st i = Some h \<and> a_idx h = aidx art))
     \<and> (b \<longrightarrow> (\<exists>k<history_ctr st. \<exists>h. hist_get st k = Some h \<and> a_idx h = aidx art
              \<and> hist_put k (h\<lparr>type := hist_on (type h) HIST_ARTIFACT_LOST\<rparr>) st = Some st'))
     \<and> (\<not> b \<and> history_ctr st < HISTORY_MAX \<longrightarrow>
          history_ctr st' = history_ctr st + 1
          \<and> hist_get st' (history_ctr st) =
              Some (history_entry E {HIST_ARTIFACT_LOST, HIST_ARTIFACT_UNKNOWN} (Some art)
                      (player_depth E) (player_lev E) (player_turn E)
                      (take 79 (''Missed '' @ take 79 (object_desc E art))))
          \<and> (\<forall>i<history_ctr st. hist_get st' i = hist_get st i))
     \<and> (\<not> b \<and> history_ctr st = HISTORY_MAX \<longrightarrow> st' = st)"
proof (cases "history_list st")
  case None
  with assms have z: "history_ctr st = 0" "history_size st = 0"
    by (simp_all add: history_wf_def)
  show ?thesis
    using z None
    by (auto simp add: history_lose_artifact_null history_add_full_null hist_get_def
        HISTORY_MAX_def HISTORY_BIRTH_SIZE_def)
next
  case (Some xs)
  with assms have wf: "length xs = history_size st" "history_ctr st \<le> history_size st"
    "history_size st \<le> HISTORY_MAX"
    by (simp_all add: history_wf_def)
  have le: "history_ctr st \<le> length xs" using wf by simp
  have get: "\<And>i. i < history_ctr st \<Longrightarrow> hist_get st i = Some (xs ! i)"
    using Some le by (simp add: hist_get_def)
  show ?thesis
  proof (cases "\<exists>i<history_ctr st. a_idx (xs ! i) = aidx art")
    case True
    from last_match [of "history_ctr st" "\<lambda>i. a_idx (xs ! i) = aidx art", OF True]
    obtain k where k: "k < history_ctr st" "a_idx (xs ! k) = aidx art"
      "\<forall>i. k < i \<and> i < history_ctr st \<longrightarrow> a_idx (xs ! i) \<noteq> aidx art"
      by blast
    let ?st' = "st\<lparr>history_list :=
             Some (xs[k := (xs ! k)\<lparr>type := hist_on (type (xs ! k)) HIST_ARTIFACT_LOST\<rparr>])\<rparr>"
    have r: "history_lose_artifact E art st = Some (True, ?st')"
      by (rule history_lose_artifact_found [OF Some le k])
    have p: "hist_put k ((xs ! k)\<lparr>type := hist_on (type (xs ! k)) HIST_ARTIFACT_LOST\<rparr>) st = Some ?st'"
      using Some k(1) le by (simp add: hist_put_def)
    have e: "\<exists>i<history_ctr st. \<exists>h. hist_get st i = Some h \<and> a_idx h = aidx art"
      using k(1,2) get by blast
    have m: "\<exists>k<history_ctr st. \<exists>h. hist_get st k = Some h \<and> a_idx h = aidx art
              \<and> hist_put k (h\<lparr>type := hist_on (type h) HIST_ARTIFACT_LOST\<rparr>) st = Some ?st'"
      using k(1,2) get p by blast
    show ?thesis
      by (rule exI [of _ True], rule exI [of _ ?st']) (use r e m in simp)
  next
    case False
    then have no: "\<forall>i<history_ctr st. a_idx (xs ! i) \<noteq> aidx art" by blast
    have ne: "\<not> (\<exists>i<history_ctr st. \<exists>h. hist_get st i = Some h \<and> a_idx h = aidx art)"
      using no get by auto
    note r = history_lose_artifact_missed [OF Some le no, of E]
    consider (full) "history_ctr st = HISTORY_MAX" "history_size st = HISTORY_MAX"
      | (grow) "history_ctr st = history_size st" "history_size st < HISTORY_MAX"
      | (room) "history_ctr st < history_size st"
      using wf by linarith
    then show ?thesis
    proof cases
      case full
      then have r': "history_lose_artifact E art st = Some (False, st)"
        using r Some by (simp add: history_add_full_capped)
      show ?thesis
        by (rule exI [of _ False], rule exI [of _ st]) (use r' ne full in simp)
    next
      case grow
      let ?h = "history_entry E {HIST_ARTIFACT_LOST, HIST_ARTIFACT_UNKNOWN} (Some art)
                  (player_depth E) (player_lev E) (player_turn E)
                  (take 79 (''Missed '' @ take 79 (object_desc E art)))"
      let ?st' = "st\<lparr>history_list :=
                       Some ((xs @ map (fill E) [history_size st ..< min (history_size st + 10) HISTORY_MAX])
                               [history_ctr st := ?h]),
                     history_size := min (history_size st + 10) HISTORY_MAX,
                     history_ctr := history_ctr st + 1\<rparr>"
      have r': "history_lose_artifact E art st = Some (False, ?st')"
        using r by (simp add: history_add_full_grow [OF Some grow(1) wf(1) grow(2)])
      have a: "history_ctr ?st' = history_ctr st + 1" by simp
      have b: "hist_get ?st' (history_ctr st) = Some ?h"
        using grow wf by (simp add: hist_get_def)
      have c: "\<forall>i<history_ctr st. hist_get ?st' i = hist_get st i"
        using grow wf Some by (simp add: hist_get_def nth_append)
      have d: "history_ctr st \<noteq> HISTORY_MAX" using grow by simp
      show ?thesis
        by (rule exI [of _ False], rule exI [of _ ?st']) (use r' ne a b c d in simp)
    next
      case room
      let ?h = "history_entry E {HIST_ARTIFACT_LOST, HIST_ARTIFACT_UNKNOWN} (Some art)
                  (player_depth E) (player_lev E) (player_turn E)
                  (take 79 (''Missed '' @ take 79 (object_desc E art)))"
      let ?st' = "st\<lparr>history_list := Some (xs[history_ctr st := ?h]),
                     history_ctr := history_ctr st + 1\<rparr>"
      have r': "history_lose_artifact E art st = Some (False, ?st')"
        using r by (simp add: history_add_full_room [OF Some room wf(1)])
      have a: "history_ctr ?st' = history_ctr st + 1" by simp
      have b: "hist_get ?st' (history_ctr st) = Some ?h"
        using room wf by (simp add: hist_get_def)
      have c: "\<forall>i<history_ctr st. hist_get ?st' i = hist_get st i"
        using room wf Some by (simp add: hist_get_def)
      have d: "history_ctr st \<noteq> HISTORY_MAX" using room wf by simp
      show ?thesis
        by (rule exI [of _ False], rule exI [of _ ?st']) (use r' ne a b c d in simp)
    qed
  qed
qed

text \<open>
  Claim C10 as stated fails on the full list: the artifact has no entry, the function
  returns FALSE, and nothing is appended.
\<close>

theorem history_lose_artifact_full_counterexample:
  "history_lose_artifact history_env0 artifact1 history_full = Some (False, history_full)"
proof -
  have l: "history_list history_full = Some (replicate 5000 zero_info)"
    and c: "history_ctr history_full = HISTORY_MAX"
    and s: "HISTORY_MAX \<le> history_size history_full"
    by (simp_all add: history_full_def HISTORY_MAX_def)
  have le: "history_ctr history_full \<le> length (replicate 5000 zero_info)"
    by (simp add: history_full_def)
  have no: "\<forall>i<history_ctr history_full. a_idx (replicate 5000 zero_info ! i) \<noteq> aidx artifact1"
    by (simp add: history_full_def zero_info_def artifact1_def)
  have cs: "history_ctr history_full = history_size history_full"
    by (simp add: history_full_def)
  show ?thesis
    using history_lose_artifact_missed [OF l le no, of history_env0]
    by (simp add: history_add_full_capped [OF l cs s])
qed


theorem history_lose_artifact_spec_witness:
  "history_wf history_start
   \<and> (\<exists>st'. history_lose_artifact history_env0 artifact1 history_start = Some (False, st')
         \<and> history_ctr st' = 1)
   \<and> history_wf history_one
   \<and> (\<exists>st'. history_lose_artifact history_env0 artifact1 history_one = Some (True, st')
         \<and> hist_put 0 (zero_info\<lparr>a_idx := 1, type := {HIST_ARTIFACT_LOST}\<rparr>) history_one = Some st')
   \<and> history_wf history_full
   \<and> history_lose_artifact history_env0 artifact1 history_full = Some (False, history_full)"
proof -
  have s: "history_wf history_start"
    by (simp add: history_wf_def history_start_def)
  have o: "history_wf history_one"
    by (simp add: history_wf_def history_one_def HISTORY_MAX_def)
  have f: "history_wf history_full"
    by (simp add: history_wf_def history_full_def HISTORY_MAX_def)
  have s0: "history_ctr history_start = 0" "history_ctr history_start < HISTORY_MAX"
    by (simp_all add: history_start_def HISTORY_MAX_def)
  from history_lose_artifact_spec [OF s, of history_env0 artifact1] s0
  have 1: "\<exists>st'. history_lose_artifact history_env0 artifact1 history_start = Some (False, st')
         \<and> history_ctr st' = 1"
    by auto
  have o1: "history_ctr history_one = 1"
    "hist_get history_one 0 = Some (zero_info\<lparr>a_idx := 1\<rparr>)"
    "aidx artifact1 = 1"
    by (simp_all add: history_one_def hist_get_def artifact1_def)
  from history_lose_artifact_spec [OF o, of history_env0 artifact1] o1
  have 2: "\<exists>st'. history_lose_artifact history_env0 artifact1 history_one = Some (True, st')
         \<and> hist_put 0 (zero_info\<lparr>a_idx := 1, type := {HIST_ARTIFACT_LOST}\<rparr>) history_one = Some st'"
    by (auto simp add: hist_on_def zero_info_def)
  have f1: "history_ctr history_full = HISTORY_MAX"
    by (simp add: history_full_def HISTORY_MAX_def)
  have f2: "\<not> (\<exists>i<HISTORY_MAX. \<exists>h. hist_get history_full i = Some h \<and> a_idx h = aidx artifact1)"
    by (auto simp add: history_full_def HISTORY_MAX_def hist_get_def zero_info_def artifact1_def
        split: if_splits)
  from history_lose_artifact_spec [OF f, of history_env0 artifact1] f1 f2
  have 3: "history_lose_artifact history_env0 artifact1 history_full = Some (False, history_full)"
    by auto
  from s o f 1 2 3 show ?thesis by blast
qed

subsection \<open>The operations keep the states reachable\<close>

lemma history_wf_start: "history_wf history_start"
  by (simp add: history_wf_def history_start_def)

lemma history_wf_clear:
  assumes "history_wf st"
  shows "history_wf (history_clear st)"
  using assms by (auto simp add: history_wf_def history_clear_def)

lemma history_wf_hist_put:
  assumes "history_wf st" and "hist_put i h st = Some st'"
  shows "history_wf st'"
  using assms by (auto simp add: history_wf_def hist_put_def split: option.splits if_splits)

lemma history_wf_add_full:
  assumes "history_wf st" and "history_add_full E ty art dl cl turnno text st = Some (b, st')"
  shows "history_wf st'"
proof (cases "history_list st")
  case None
  with assms show ?thesis
    by (auto simp add: history_add_full_null history_wf_def HISTORY_BIRTH_SIZE_def HISTORY_MAX_def)
next
  case (Some xs)
  with assms(1) have wf: "length xs = history_size st" "history_ctr st \<le> history_size st"
    "history_size st \<le> HISTORY_MAX"
    by (simp_all add: history_wf_def)
  consider (full) "history_ctr st = history_size st" "HISTORY_MAX \<le> history_size st"
    | (grow) "history_ctr st = history_size st" "history_size st < HISTORY_MAX"
    | (room) "history_ctr st < history_size st"
    using wf by linarith
  then show ?thesis
  proof cases
    case full
    with assms Some show ?thesis by (simp add: history_add_full_capped)
  next
    case grow
    with assms(2) Some wf show ?thesis
      by (auto simp add: history_add_full_grow history_wf_def)
  next
    case room
    with assms(2) Some wf show ?thesis
      by (auto simp add: history_add_full_room history_wf_def)
  qed
qed

lemma history_wf_know_loop:
  assumes "history_wf st" and "history_know_loop art n st = Some (b, st')"
  shows "history_wf st'"
  using assms(2)
proof (induction n)
  case 0
  with assms(1) show ?case by simp
next
  case (Suc n)
  then show ?case
    using assms(1) by (auto split: option.splits if_splits intro: history_wf_hist_put)
qed

lemma history_wf_lose_loop:
  assumes "history_wf st" and "history_lose_loop art n st = Some (Some st')"
  shows "history_wf st'"
  using assms(2)
proof (induction n)
  case 0
  then show ?case by simp
next
  case (Suc n)
  then show ?case
    using assms(1) by (auto split: option.splits if_splits intro: history_wf_hist_put)
qed

lemma history_wf_add_artifact:
  assumes "history_wf st" and "history_add_artifact E art known found st = Some (b, st')"
  shows "history_wf st'"
  using assms
  by (auto simp add: history_add_artifact_def history_add_def history_know_artifact_def Let_def
      split: option.splits if_splits bool.splits
      intro: history_wf_add_full history_wf_know_loop)

lemma history_wf_lose_artifact:
  assumes "history_wf st" and "history_lose_artifact E art st = Some (b, st')"
  shows "history_wf st'"
  using assms
  by (auto simp add: history_lose_artifact_def split: option.splits
      intro: history_wf_lose_loop history_wf_add_artifact)

text \<open>The full list of the concrete runs is what 5000 blank entries leave.\<close>

lemma history_blank_spec:
  assumes "n \<le> HISTORY_MAX"
  shows "\<exists>st'. history_blank n E history_start = Some st' \<and> history_wf st'
           \<and> history_ctr st' = n \<and> (\<forall>i<n. hist_get st' i = Some zero_info)"
  using assms
proof (induction n)
  case 0
  then show ?case by (simp add: history_wf_start) (simp add: history_start_def)
next
  case (Suc n)
  then obtain st1 where st1: "history_blank n E history_start = Some st1" "history_wf st1"
    "history_ctr st1 = n" "\<forall>i<n. hist_get st1 i = Some zero_info"
    by auto
  from Suc.prems st1(3) have "history_ctr st1 < HISTORY_MAX" by simp
  from history_add_full_appends [OF st1(2) this, of E "{}" None 0 0 0 "[]"]
  obtain st2 where st2: "history_add_full E {} None 0 0 0 [] st1 = Some (True, st2)"
    "history_ctr st2 = history_ctr st1 + 1"
    "hist_get st2 (history_ctr st1) = Some (history_entry E {} None 0 0 0 [])"
    "\<forall>i < history_ctr st1. hist_get st2 i = hist_get st1 i" "history_wf st2"
    by blast
  have z: "history_entry E {} None 0 0 0 [] = zero_info"
    by (simp add: history_entry_def hist_copy_def my_strcpy_def zero_info_def)
  have "\<forall>i<Suc n. hist_get st2 i = Some zero_info"
    using st1(3,4) st2(3,4) z by (auto simp add: less_Suc_eq)
  with st1(1,3) st2(1,2,5) show ?case by simp
qed

lemma history_full_reachable:
  "history_blank 5000 E history_start = Some history_full"
proof -
  from history_blank_spec [of 5000 E]
  obtain st where st: "history_blank 5000 E history_start = Some st" "history_wf st"
    "history_ctr st = 5000" "\<forall>i<5000. hist_get st i = Some zero_info"
    by (auto simp add: HISTORY_MAX_def)
  from st(2,3) obtain xs where xs: "history_list st = Some xs" "length xs = history_size st"
    "history_size st = 5000"
    by (cases "history_list st") (auto simp add: history_wf_def HISTORY_MAX_def)
  have "\<forall>i<5000. xs ! i = zero_info"
    using st(4) xs by (auto simp add: hist_get_def)
  with xs have "xs = replicate 5000 zero_info"
    by (intro nth_equalityI) simp_all
  with xs st(3) have "st = history_full"
    by (simp add: history_full_def)
  with st(1) show ?thesis by simp
qed

section \<open>Properties of the random number interface\<close>

subsection \<open>The macros\<close>


lemma sint_of_int_s32b:
  assumes "- (2 ^ 31) \<le> k" and "k < 2 ^ 31"
  shows "sint (word_of_int k :: s32b) = k"
  using assms by (simp add: sint_sbintrunc' signed_take_bit_int_eq_self)

lemma uint_of_int_u32b:
  assumes "0 \<le> k" and "k < 2 ^ 32"
  shows "uint (word_of_int k :: u32b) = k"
  using assms by (simp add: uint_word_of_int take_bit_eq_mod)

lemma uint_eq_sint_s32b:
  fixes w :: s32b
  assumes "0 \<le> sint w"
  shows "uint w = sint w"
proof -
  have "sint w < 2 ^ 31" using sint_lt [of w] by simp
  then have "uint (word_of_int (sint w) :: u32b) = sint w"
    using assms by (intro uint_of_int_u32b) simp_all
  then show ?thesis by simp
qed

text \<open>
  Claim C7. For every signed \<open>M \<ge> 1\<close> and every generator state, \<open>randint1(M)\<close> is
  \<open>Rand_div(M) + 1\<close> on that state, which is \<open>randint0(M) + 1\<close> with the same new state,
  and its value lies in \<open>[1, M]\<close>.
\<close>

theorem randint1_range:
  assumes "Rand_div_ok rd" and "1 \<le> sint M"
  shows "randint1 rd M g = (fst (rd M g) + 1, snd (rd M g))
       \<and> fst (randint1 rd M g) = fst (randint0 rd M g) + 1
       \<and> snd (randint1 rd M g) = snd (randint0 rd M g)
       \<and> sint (fst (randint1 rd M g)) = uint (fst (rd M g)) + 1
       \<and> 1 \<le> sint (fst (randint1 rd M g))
       \<and> sint (fst (randint1 rd M g)) \<le> sint M"
proof -
  obtain r g' where d: "rd M g = (r, g')" by (cases "rd M g")
  have uM: "uint M = sint M" using assms(2) by (intro uint_eq_sint_s32b) simp
  have "M \<noteq> 0" using assms(2) by auto
  then have "0 < M" by (simp add: word_greater_zero_iff)
  with assms(1) have "fst (rd M g) < M" by (simp add: Rand_div_ok_def)
  with d have "uint r < uint M" by (simp add: word_less_alt)
  with uM have lt: "uint r < sint M" by simp
  have "sint M < 2 ^ 31" using sint_lt [of M] by simp
  with lt have b: "uint r + 1 < 2 ^ 31" by simp
  have "r + 1 = word_of_int (uint r + 1)" by simp
  then have "sint (r + 1) = sint (word_of_int (uint r + 1) :: s32b)" by simp
  also have "\<dots> = uint r + 1"
    using b by (intro sint_of_int_s32b) simp_all
  finally have s: "sint (r + 1) = uint r + 1" .
  show ?thesis using d s lt by (simp add: randint1_def randint0_def)
qed

lemma rd_counter_ok: "Rand_div_ok rd_counter"
  by (simp add: Rand_div_ok_def rd_counter_def word_mod_less_divisor)

theorem randint1_range_witness:
  "Rand_div_ok rd_counter \<and> 1 \<le> sint (6 :: s32b)
   \<and> randint1 rd_counter 6 10 = (5, 11)
   \<and> 1 \<le> sint (fst (randint1 rd_counter 6 10))
   \<and> sint (fst (randint1 rd_counter 6 10)) \<le> sint (6 :: s32b)"
proof -
  have h: "1 \<le> sint (6 :: s32b)" by simp
  from randint1_range [OF rd_counter_ok h, of 10] rd_counter_ok h show ?thesis
    by (simp add: rd_counter_def)
qed

text \<open>
  Claim C6, as amended. For every \<open>A\<close> and every \<open>D \<ge> 0\<close> such that \<open>A - D\<close> and
  \<open>A + D\<close> are signed 32-bit values, and every generator state, \<open>rand_spread(A, D)\<close> is
  \<open>A + Rand_div(2D + 1) - D\<close> on that state, equals \<open>rand_range(A - D, A + D)\<close>, and its
  value lies in \<open>[A - D, A + D]\<close>.
\<close>

theorem rand_spread_range:
  assumes "Rand_div_ok rd" and "0 \<le> sint D"
    and "- (2 ^ 31) \<le> sint A - sint D" and "sint A + sint D < 2 ^ 31"
  shows "rand_spread rd A D g = (A + fst (rd (1 + D + D) g) - D, snd (rd (1 + D + D) g))
       \<and> uint (1 + D + D) = 2 * sint D + 1
       \<and> sint (fst (rand_spread rd A D g)) = sint A + uint (fst (rd (1 + D + D) g)) - sint D
       \<and> rand_spread rd A D g = rand_range rd (A - D) (A + D) g
       \<and> sint A - sint D \<le> sint (fst (rand_spread rd A D g))
       \<and> sint (fst (rand_spread rd A D g)) \<le> sint A + sint D"
proof -
  obtain r g' where d: "rd (1 + D + D) g = (r, g')" by (cases "rd (1 + D + D) g")
  have Dlt: "sint D < 2 ^ 31" using sint_lt [of D] by simp
  have "1 + D + D = word_of_int (1 + sint D + sint D)" by simp
  then have "uint (1 + D + D) = uint (word_of_int (1 + sint D + sint D) :: u32b)" by simp
  also have "\<dots> = 1 + sint D + sint D"
    using assms(2) Dlt by (intro uint_of_int_u32b) simp_all
  finally have um: "uint (1 + D + D) = 2 * sint D + 1" by simp
  then have "1 + D + D \<noteq> 0" using assms(2) by auto
  then have "0 < 1 + D + D" by (simp add: word_greater_zero_iff)
  with assms(1) have "fst (rd (1 + D + D) g) < 1 + D + D" by (simp add: Rand_div_ok_def)
  with d um have r: "uint r \<le> 2 * sint D" by (simp add: word_less_alt)
  have r0: "0 \<le> uint r" by simp
  have "A + r - D = word_of_int (sint A + uint r - sint D)" by simp
  then have "sint (A + r - D) = sint (word_of_int (sint A + uint r - sint D) :: s32b)" by simp
  also have "\<dots> = sint A + uint r - sint D"
    using r r0 assms(3,4) by (intro sint_of_int_s32b) linarith+
  finally have s: "sint (A + r - D) = sint A + uint r - sint D" .
  have e: "A + D - (A - D) + 1 = 1 + D + D" by simp
  show ?thesis
    using d s r r0 um by (simp add: rand_spread_def randint0_def rand_range_def e)
qed

theorem rand_spread_range_witness:
  "Rand_div_ok rd_counter \<and> 0 \<le> sint (3 :: s32b)
   \<and> rand_spread rd_counter 10 3 5 = (12, 6)
   \<and> rand_spread rd_counter 10 3 5 = rand_range rd_counter 7 13 5
   \<and> sint (10 :: s32b) - sint (3 :: s32b) \<le> sint (fst (rand_spread rd_counter 10 3 5))
   \<and> sint (fst (rand_spread rd_counter 10 3 5)) \<le> sint (10 :: s32b) + sint (3 :: s32b)"
proof -
  have h: "0 \<le> sint (3 :: s32b)" "- (2 ^ 31) \<le> sint (10 :: s32b) - sint (3 :: s32b)"
    "sint (10 :: s32b) + sint (3 :: s32b) < 2 ^ 31"
    by simp_all
  from rand_spread_range [OF rd_counter_ok h, of 5] rd_counter_ok h show ?thesis
    by (simp add: rd_counter_def rand_range_def)
qed

text \<open>
  Claim C6 as stated fails where \<open>A + D\<close> is not a signed 32-bit value: with
  \<open>A = 2147483647\<close>, \<open>D = 1\<close> and a draw of 2 the sum wraps around to \<open>-2147483648\<close>,
  below \<open>A - D\<close>.
\<close>

theorem rand_spread_overflow_counterexample:
  "fst (rd_counter (1 + 1 + 1) 2) = 2
   \<and> sint (fst (rand_spread rd_counter 2147483647 1 2)) = - 2147483648
   \<and> sint (fst (rand_spread rd_counter 2147483647 1 2))
       \<noteq> sint (2147483647 :: s32b) + uint (fst (rd_counter (1 + 1 + 1) 2)) - sint (1 :: s32b)
   \<and> \<not> (sint (2147483647 :: s32b) - sint (1 :: s32b)
           \<le> sint (fst (rand_spread rd_counter 2147483647 1 2)))"
  by (simp add: rand_spread_def randint0_def rd_counter_def)

subsection \<open>The two generators are isolated\<close>

lemma complex_of_set_complex: "complex_of (set_complex c g) = c"
  by (cases c) (simp add: complex_of_def)

lemma Rand_div_quick_frame:
  assumes "Rand_quick g"
  shows "complex_of (snd (Rand_div G m g)) = complex_of g"
    and "Rand_quick (snd (Rand_div G m g))"
  using assms by (simp_all add: Rand_div_def complex_of_def split: prod.splits)

lemma Rand_div_complex_frame:
  assumes "\<not> Rand_quick g"
  shows "Rand_value (snd (Rand_div G m g)) = Rand_value g"
    and "\<not> Rand_quick (snd (Rand_div G m g))"
  using assms by (auto simp add: Rand_div_def split: prod.splits)

lemma run_ops_quick_frame:
  assumes "draws_in True (Rand_quick g) ops"
  shows "complex_of (snd (run_ops G ops g)) = complex_of g"
  using assms
proof (induction ops arbitrary: g)
  case Nil
  then show ?case by simp
next
  case (Cons op ops)
  show ?case
  proof (cases op)
    case (Set_quick b)
    with Cons.prems have "draws_in True (Rand_quick (set_quick_mode b g)) ops"
      by (simp add: set_quick_mode_def)
    from Cons.IH [OF this] Set_quick show ?thesis
      by (simp add: set_quick_mode_def complex_of_def)
  next
    case (Draw m)
    with Cons.prems have q: "Rand_quick g" by simp
    from Cons.prems Draw have d: "draws_in True (Rand_quick g) ops" by auto
    obtain r g1 where s: "Rand_div G m g = (r, g1)" by (cases "Rand_div G m g")
    from Rand_div_quick_frame [OF q, of G m] s
    have f: "complex_of g1 = complex_of g" "Rand_quick g1" by simp_all
    with d q have "draws_in True (Rand_quick g1) ops" by simp
    from Cons.IH [OF this] f Draw s show ?thesis
      by (simp add: case_prod_beta)
  qed
qed


lemma run_ops_complex_frame:
  assumes "draws_in False (Rand_quick g) ops"
  shows "Rand_value (snd (run_ops G ops g)) = Rand_value g"
  using assms
proof (induction ops arbitrary: g)
  case Nil
  then show ?case by simp
next
  case (Cons op ops)
  show ?case
  proof (cases op)
    case (Set_quick b)
    with Cons.prems have "draws_in False (Rand_quick (set_quick_mode b g)) ops"
      by (simp add: set_quick_mode_def)
    from Cons.IH [OF this] Set_quick show ?thesis
      by (simp add: set_quick_mode_def)
  next
    case (Draw m)
    with Cons.prems have q: "\<not> Rand_quick g" by simp
    from Cons.prems Draw have d: "draws_in False (Rand_quick g) ops" by auto
    obtain r g1 where s: "Rand_div G m g = (r, g1)" by (cases "Rand_div G m g")
    from Rand_div_complex_frame [OF q, of G m] s
    have f: "Rand_value g1 = Rand_value g" "\<not> Rand_quick g1" by simp_all
    with d q have "draws_in False (Rand_quick g1) ops" by simp
    from Cons.IH [OF this] f Draw s show ?thesis
      by (simp add: case_prod_beta)
  qed
qed

lemma complex_draws_cong:
  assumes "complex_of g1 = complex_of g2" and "\<not> Rand_quick g1" and "\<not> Rand_quick g2"
  shows "fst (run_ops G (map Draw ms) g1) = fst (run_ops G (map Draw ms) g2)"
  using assms
proof (induction ms arbitrary: g1 g2)
  case Nil
  then show ?case by simp
next
  case (Cons m ms)
  obtain r c where c: "complex_below G m (complex_of g2) = (r, c)"
    by (cases "complex_below G m (complex_of g2)")
  have 1: "Rand_div G m g1 = (r, set_complex c g1)"
    using Cons.prems c by (simp add: Rand_div_def)
  have 2: "Rand_div G m g2 = (r, set_complex c g2)"
    using Cons.prems c by (simp add: Rand_div_def)
  have q: "\<not> Rand_quick (set_complex c g1)" "\<not> Rand_quick (set_complex c g2)"
    using Cons.prems by (cases c, simp)+
  have "complex_of (set_complex c g1) = complex_of (set_complex c g2)"
    by (simp add: complex_of_set_complex)
  from Cons.IH [OF this q] 1 2 show ?case
    by (simp add: case_prod_beta)
qed

lemma Rand_div_quick_ignores_complex:
  assumes "Rand_quick g"
  shows "fst (Rand_div G m (set_complex c g)) = fst (Rand_div G m g)"
  using assms by (cases c) (simp add: Rand_div_def case_prod_beta)

lemma Rand_div_complex_ignores_quick:
  assumes "\<not> Rand_quick g"
  shows "fst (Rand_div G m (g\<lparr>Rand_value := v\<rparr>)) = fst (Rand_div G m g)"
  using assms by (simp add: Rand_div_def complex_of_def case_prod_beta)

text \<open>
  Claim C4. A run that sets the mode flag any number of times and draws only while the
  flag is on quick leaves \<open>state_i\<close>, \<open>STATE\<close>, \<open>z0\<close>, \<open>z1\<close> and \<open>z2\<close> as they were, so
  the numbers the Complex Generator draws afterwards are the ones it would have drawn
  without the run. In the other direction, a run that draws only while the flag is on
  complex leaves \<open>Rand_value\<close> as it was. Setting the flag changes neither state, and a
  draw does not read the state of the generator that is not selected: with another state
  there it draws the same number.
\<close>

theorem quick_draws_isolated:
  "(draws_in True (Rand_quick g) ops \<longrightarrow>
      complex_of (snd (run_ops G ops g)) = complex_of g
      \<and> fst (run_ops G (map Draw ms) (set_quick_mode False (snd (run_ops G ops g))))
          = fst (run_ops G (map Draw ms) (set_quick_mode False g)))
   \<and> (draws_in False (Rand_quick g) ops \<longrightarrow>
        Rand_value (snd (run_ops G ops g)) = Rand_value g)
   \<and> complex_of (set_quick_mode b g) = complex_of g
   \<and> Rand_value (set_quick_mode b g) = Rand_value g
   \<and> (Rand_quick g \<longrightarrow> fst (Rand_div G m (set_complex c g)) = fst (Rand_div G m g))
   \<and> (\<not> Rand_quick g \<longrightarrow> fst (Rand_div G m (g\<lparr>Rand_value := v\<rparr>)) = fst (Rand_div G m g))"
proof -
  have "fst (run_ops G (map Draw ms) (set_quick_mode False (snd (run_ops G ops g))))
          = fst (run_ops G (map Draw ms) (set_quick_mode False g))"
    if "draws_in True (Rand_quick g) ops"
  proof (rule complex_draws_cong)
    show "complex_of (set_quick_mode False (snd (run_ops G ops g)))
            = complex_of (set_quick_mode False g)"
      using run_ops_quick_frame [OF that, of G]
      by (simp add: set_quick_mode_def complex_of_def)
  qed (simp_all add: set_quick_mode_def)
  moreover have "complex_of (snd (run_ops G ops g)) = complex_of g"
    if "draws_in True (Rand_quick g) ops"
    using that by (rule run_ops_quick_frame)
  moreover have "Rand_value (snd (run_ops G ops g)) = Rand_value g"
    if "draws_in False (Rand_quick g) ops"
    using that by (rule run_ops_complex_frame)
  moreover have "complex_of (set_quick_mode b g) = complex_of g"
    and "Rand_value (set_quick_mode b g) = Rand_value g"
    by (simp_all add: set_quick_mode_def complex_of_def)
  moreover have "fst (Rand_div G m (set_complex c g)) = fst (Rand_div G m g)" if "Rand_quick g"
    using that by (rule Rand_div_quick_ignores_complex)
  moreover have "fst (Rand_div G m (g\<lparr>Rand_value := v\<rparr>)) = fst (Rand_div G m g)"
    if "\<not> Rand_quick g"
    using that by (rule Rand_div_complex_ignores_quick)
  ultimately show ?thesis by blast
qed

theorem quick_draws_isolated_witness:
  "draws_in True (Rand_quick rng0) [Set_quick True, Draw 6, Draw 10, Set_quick False]
   \<and> complex_of (snd (run_ops generators0 [Set_quick True, Draw 6, Draw 10, Set_quick False] rng0))
       = complex_of rng0
   \<and> Rand_value (snd (run_ops generators0 [Set_quick True, Draw 6, Draw 10, Set_quick False] rng0))
       \<noteq> Rand_value rng0
   \<and> fst (run_ops generators0 (map Draw [6, 6])
        (set_quick_mode False
           (snd (run_ops generators0 [Set_quick True, Draw 6, Draw 10, Set_quick False] rng0))))
      = fst (run_ops generators0 (map Draw [6, 6]) (set_quick_mode False rng0))
   \<and> draws_in False (Rand_quick rng0) [Draw 6, Set_quick True]
   \<and> Rand_value (snd (run_ops generators0 [Draw 6, Set_quick True] rng0)) = Rand_value rng0
   \<and> \<not> Rand_quick rng0
   \<and> fst (Rand_div generators0 6 (rng0\<lparr>Rand_value := 99\<rparr>)) = fst (Rand_div generators0 6 rng0)
   \<and> Rand_quick (set_quick_mode True rng0)
   \<and> fst (Rand_div generators0 6 (set_complex (5, [], 6, 7, 8) (set_quick_mode True rng0)))
      = fst (Rand_div generators0 6 (set_quick_mode True rng0))"
proof -
  have h: "draws_in True (Rand_quick rng0) [Set_quick True, Draw 6, Draw 10, Set_quick False]"
    "draws_in False (Rand_quick rng0) [Draw 6, Set_quick True]"
    "\<not> Rand_quick rng0" "Rand_quick (set_quick_mode True rng0)"
    by (simp_all add: rng0_def set_quick_mode_def)
  have v: "Rand_value (snd (run_ops generators0 [Set_quick True, Draw 6, Draw 10, Set_quick False] rng0))
       \<noteq> Rand_value rng0"
    by (simp add: rng0_def generators0_def Rand_div_def set_quick_mode_def)
  from quick_draws_isolated [of rng0 "[Set_quick True, Draw 6, Draw 10, Set_quick False]"
      generators0 "[6, 6]" _ 6 _ 99]
    quick_draws_isolated [of rng0 "[Draw 6, Set_quick True]" generators0]
    quick_draws_isolated [of "set_quick_mode True rng0" "[]" generators0 "[]" _ 6 "(5, [], 6, 7, 8)"]
    h v
  show ?thesis by simp
qed

subsection \<open>Dice calculus\<close>

lemma dice_average_round:
  "dice_average n s = round (real_of_int (n * (s + 1)) / 2)"
proof -
  have "round (real_of_int (n * (s + 1)) / 2) = \<lfloor>real_of_int (n * (s + 1) + 1) / real_of_int 2\<rfloor>"
    by (simp add: round_def add_divide_distrib)
  also have "\<dots> = (n * (s + 1) + 1) div 2"
    by (rule floor_divide_of_int_eq)
  finally show ?thesis by (simp add: dice_average_def)
qed

lemma dice_average_between:
  assumes "0 \<le> n" and "1 \<le> s"
  shows "n \<le> dice_average n s \<and> dice_average n s \<le> n * s"
proof -
  have ns: "n \<le> n * s" using assms by (simp add: mult_le_cancel_left1)
  have e: "n * (s + 1) = n * s + n" by (simp add: algebra_simps)
  have "n \<le> (n * s + n + 1) div 2" using ns by linarith
  moreover have "(n * s + n + 1) div 2 \<le> n * s" using ns by linarith
  ultimately show ?thesis by (simp add: dice_average_def e)
qed

lemma draw_below_ok_sampling0: "draw_below_ok sampling0"
  by (simp add: draw_below_ok_def sampling0_def)

text \<open>
  Claim C2. For every \<open>n\<close> and \<open>s\<close>, so for every \<open>n \<ge> 0\<close> and \<open>s \<ge> 1\<close>:
  \<open>damcalc(n, s, MINIMISE)\<close> is \<open>n\<close>, \<open>damcalc(n, s, MAXIMISE)\<close> is \<open>n*s\<close> and
  \<open>damcalc(n, s, AVERAGE)\<close> is \<open>n*(s+1)/2\<close> rounded to the nearest integer with halves
  rounded up (\<open>round x\<close> is the floor of \<open>x + 1/2\<close>); each returns the generator state it
  was given.
\<close>

theorem damcalc_analytic:
  "damcalc X n s MINIMISE g = (n, g)
   \<and> damcalc X n s MAXIMISE g = (n * s, g)
   \<and> damcalc X n s AVERAGE g = (round (real_of_int (n * (s + 1)) / 2), g)"
  by (simp add: dice_average_round)

theorem damcalc_analytic_witness:
  "damcalc sampling0 2 6 MINIMISE 0 = (2, 0)
   \<and> damcalc sampling0 2 6 MAXIMISE 0 = (12, 0)
   \<and> damcalc sampling0 2 6 AVERAGE 0 = (7, 0)
   \<and> damcalc sampling0 1 2 AVERAGE 0 = (2, 0)
   \<and> round (real_of_int 3 / 2) = 2"
  using damcalc_analytic [of sampling0 2 6 0] damcalc_analytic [of sampling0 1 2 0]
  by (simp add: dice_average_def)

lemma damroll_loop_range:
  assumes "draw_below_ok X" and "1 \<le> s"
  shows "int k \<le> fst (damroll_loop X k s g) \<and> fst (damroll_loop X k s g) \<le> int k * s"
proof (induction k arbitrary: g)
  case 0
  then show ?case by simp
next
  case (Suc k)
  obtain r g1 where d: "draw_below X s g = (r, g1)" by (cases "draw_below X s g")
  obtain t g2 where l: "damroll_loop X k s g1 = (t, g2)" by (cases "damroll_loop X k s g1")
  from assms have "0 \<le> fst (draw_below X s g) \<and> fst (draw_below X s g) < s"
    by (simp add: draw_below_ok_def)
  with d have r: "0 \<le> r" "r < s" by simp_all
  from Suc.IH [of g1] l have t: "int k \<le> t" "t \<le> int k * s" by simp_all
  have "int (Suc k) * s = s + int k * s" by (simp add: algebra_simps)
  with r t d l show ?case by simp
qed

text \<open>
  Claim C3. For every \<open>s\<close>, \<open>damroll(0, s)\<close> returns 0 (and the state it was given); and
  for every \<open>n \<ge> 1\<close>, \<open>s \<ge> 1\<close> and generator state, with a sampler that draws below
  \<open>m\<close>, the value of \<open>damroll(n, s)\<close> lies in \<open>[n, n*s]\<close>.
\<close>

theorem damroll_range:
  "damroll X 0 s g = (0, g)
   \<and> (draw_below_ok X \<and> 1 \<le> n \<and> 1 \<le> s \<longrightarrow>
        n \<le> fst (damroll X n s g) \<and> fst (damroll X n s g) \<le> n * s)"
proof -
  have "damroll X 0 s g = (0, g)" by (simp add: damroll_def)
  moreover have "n \<le> fst (damroll X n s g) \<and> fst (damroll X n s g) \<le> n * s"
    if "draw_below_ok X" "1 \<le> n" "1 \<le> s"
    using damroll_loop_range [OF that(1,3), of "nat n" g] that(2) by (simp add: damroll_def)
  ultimately show ?thesis by blast
qed

theorem damroll_range_witness:
  "draw_below_ok sampling0 \<and> (1::int) \<le> 2 \<and> (1::int) \<le> 6
   \<and> damroll sampling0 0 6 0 = (0, 0)
   \<and> 2 \<le> fst (damroll sampling0 2 6 0) \<and> fst (damroll sampling0 2 6 0) \<le> 2 * 6"
  using damroll_range [of sampling0 6 0 2] draw_below_ok_sampling0 by simp

text \<open>
  Claim C8. For every \<open>n \<ge> 0\<close> and \<open>s \<ge> 1\<close>, \<open>damcalc(n, s, EXTREMIFY)\<close> is the MAXIMISE
  value \<open>n*s\<close> when \<open>n*s - average \<ge> average - n\<close>, with \<open>average\<close> the AVERAGE value,
  and the MINIMISE value \<open>n\<close> otherwise: it is the extreme whose distance from the
  average is larger, and the maximum when the distances are equal.
\<close>

theorem damcalc_extremify:
  assumes "0 \<le> n" and "1 \<le> s"
  shows "damcalc X n s EXTREMIFY g =
           (if n * s - fst (damcalc X n s AVERAGE g) \<ge> fst (damcalc X n s AVERAGE g) - n
            then fst (damcalc X n s MAXIMISE g) else fst (damcalc X n s MINIMISE g), g)
         \<and> fst (damcalc X n s MAXIMISE g) = n * s \<and> fst (damcalc X n s MINIMISE g) = n
         \<and> (\<bar>n * s - fst (damcalc X n s AVERAGE g)\<bar> \<ge> \<bar>n - fst (damcalc X n s AVERAGE g)\<bar>
              \<longrightarrow> fst (damcalc X n s EXTREMIFY g) = n * s)
         \<and> (\<bar>n * s - fst (damcalc X n s AVERAGE g)\<bar> < \<bar>n - fst (damcalc X n s AVERAGE g)\<bar>
              \<longrightarrow> fst (damcalc X n s EXTREMIFY g) = n)"
  using dice_average_between [OF assms] by simp

theorem damcalc_extremify_witness:
  "(0::int) \<le> 2 \<and> (1::int) \<le> 6 \<and> damcalc sampling0 2 6 EXTREMIFY 0 = (12, 0)
   \<and> (0::int) \<le> 1 \<and> (1::int) \<le> 2 \<and> damcalc sampling0 1 2 EXTREMIFY 0 = (1, 0)"
  using damcalc_extremify [of 2 6 sampling0 0] damcalc_extremify [of 1 2 sampling0 0]
  by (simp add: dice_average_def)

end
